theory Spec2Isabelle
  imports Main "HOL-Library.Sublist"
begin

section \<open>Strings and paths\<close>

text \<open>
  The program is \<^verbatim>\<open>tools/copy_aprinter_srcs.py\<close> (Python 2.7, POSIX). File contents
  are byte strings read with \<^verbatim>\<open>open(..., 'rb')\<close>; a path is a byte string as well.
  Both are modelled as \<^typ>\<open>string\<close>. Python's \<^verbatim>\<open>startswith\<close> is \<^const>\<open>prefix\<close>
  and \<^verbatim>\<open>endswith\<close> is \<^const>\<open>suffix\<close>.
\<close>

text \<open>\<^verbatim>\<open>os.sep\<close> on the POSIX platform named by the script's interpreter line.\<close>

definition os_sep :: string where
  "os_sep = ''/''"

definition newline :: char where
  "newline = CHR 0x0A"

text \<open>\<^verbatim>\<open>file_is_from_aprinter\<close>: \<^verbatim>\<open>file_path.startswith('aprinter'+os.sep)\<close>.\<close>

definition file_is_from_aprinter :: "string \<Rightarrow> bool" where
  "file_is_from_aprinter file_path = prefix (''aprinter'' @ os_sep) file_path"

text \<open>
  The specification's wording of the classification: the first path segment, the text
  before the first separator, equals the reserved namespace name.
\<close>

definition first_segment :: "string \<Rightarrow> string" where
  "first_segment p = takeWhile (\<lambda>c. c \<noteq> CHR ''/'') p"

definition spec_library_origin :: "string \<Rightarrow> bool" where
  "spec_library_origin p = (first_segment p = ''aprinter'')"

section \<open>The include pattern\<close>

text \<open>
  \<^verbatim>\<open>re.compile(r'^ *# *include *<(aprinter/.+)> *$', re.MULTILINE)\<close>.
  With \<^verbatim>\<open>MULTILINE\<close> the anchors match at the beginning and the end of every line, a
  line being a maximal run of bytes without the newline byte. No element of the pattern
  matches a newline (\<^verbatim>\<open>.\<close> excludes it), so a match never leaves its line, and
  \<^verbatim>\<open>finditer\<close> yields, in order, one match for every line that the pattern matches
  as a whole.
\<close>

fun split_lines :: "string \<Rightarrow> string list" where
  "split_lines [] = [[]]"
| "split_lines (c # cs) =
     (if c = newline then [] # split_lines cs
      else (case split_lines cs of
              [] \<Rightarrow> [[c]]
            | l # ls \<Rightarrow> (c # l) # ls))"

definition lstrip_spaces :: "string \<Rightarrow> string" where
  "lstrip_spaces s = dropWhile (\<lambda>c. c = CHR '' '') s"

definition rstrip_spaces :: "string \<Rightarrow> string" where
  "rstrip_spaces s = rev (dropWhile (\<lambda>c. c = CHR '' '') (rev s))"

text \<open>
  The meaning of the pattern on one line, read off the regular expression: \<open>a\<close>, \<open>b\<close>,
  \<open>c\<close> and \<open>d\<close> count the spaces matched by the four \<^verbatim>\<open> *\<close>, and the group is
  \<^verbatim>\<open>aprinter/\<close> followed by the non-empty, newline-free text matched by \<^verbatim>\<open>.+\<close>.
\<close>

definition regex_form :: "string \<Rightarrow> string \<Rightarrow> bool" where
  "regex_form line grp =
     (\<exists>a b c d r.
        line = replicate a (CHR '' '') @ ''#'' @ replicate b (CHR '' '') @ ''include''
               @ replicate c (CHR '' '') @ ''<'' @ grp @ ''>'' @ replicate d (CHR '' '')
        \<and> grp = ''aprinter/'' @ r \<and> r \<noteq> [] \<and> newline \<notin> set r)"

text \<open>
  The same pattern as a matcher that computes: it returns group 1 of the match of the
  whole line, if there is one. The greedy \<^verbatim>\<open>.+\<close> backtracks to the last \<^verbatim>\<open>>\<close>
  that only spaces follow.
\<close>

definition include_match :: "string \<Rightarrow> string option" where
  "include_match line =
     (case lstrip_spaces line of
        [] \<Rightarrow> None
      | h # r1 \<Rightarrow>
          if h \<noteq> CHR ''#'' then None
          else let r2 = lstrip_spaces r1 in
            if \<not> prefix ''include'' r2 then None
            else (case lstrip_spaces (drop 7 r2) of
                    [] \<Rightarrow> None
                  | lt # r3 \<Rightarrow>
                      if lt \<noteq> CHR ''<'' then None
                      else let body = rstrip_spaces r3 in
                        if body \<noteq> [] \<and> last body = CHR ''>''
                           \<and> prefix ''aprinter/'' (butlast body)
                           \<and> 9 < length (butlast body)
                        then Some (butlast body) else None))"

text \<open>\<^verbatim>\<open>[m.group(1) for m in include_regex.finditer(file_content)]\<close>.\<close>

definition finditer :: "string \<Rightarrow> string list" where
  "finditer file_content = List.map_filter include_match (split_lines file_content)"

text \<open>
  The specification's wording of the directive: optional leading whitespace, \<^verbatim>\<open>#\<close>,
  optional whitespace, \<^verbatim>\<open>include\<close>, whitespace, \<^verbatim>\<open><\<close>, a path that begins with
  \<^verbatim>\<open>aprinter/\<close>, \<^verbatim>\<open>>\<close>, optional trailing whitespace, end of line. Whitespace within
  a line is the blank characters, space and horizontal tab.
\<close>

definition is_blank :: "char \<Rightarrow> bool" where
  "is_blank c = (c = CHR '' '' \<or> c = CHR 0x09)"

definition spec_include_form :: "string \<Rightarrow> bool" where
  "spec_include_form line =
     (case dropWhile is_blank line of
        [] \<Rightarrow> False
      | h # r1 \<Rightarrow>
          h = CHR ''#'' \<and>
          (let r2 = dropWhile is_blank r1 in
             prefix ''include'' r2 \<and>
             (let r3 = drop 7 r2 in
                r3 \<noteq> [] \<and> is_blank (hd r3) \<and>
                (case dropWhile is_blank r3 of
                   [] \<Rightarrow> False
                 | lt # r4 \<Rightarrow>
                     lt = CHR ''<'' \<and>
                     (let body = rev (dropWhile is_blank (rev r4)) in
                        body \<noteq> [] \<and> last body = CHR ''>''
                        \<and> prefix ''aprinter/'' (butlast body)
                        \<and> 9 < length (butlast body))))))"

section \<open>The two trees as the program reads them\<close>

text \<open>
  The program addresses a file by \<^verbatim>\<open>os.path.join(root, file_path)\<close>, where the root is
  \<^verbatim>\<open>state['src_dir']\<close> or \<^verbatim>\<open>state['aprinter_dir']\<close>. A tree is modelled by what the
  operating system answers for each relative path: nothing there, a regular file with
  its bytes, or a directory. The path string is the identifier of the entry, as in the
  program's own sets; which strings the file system resolves to the same entry is left
  open for reading and is not modelled for writing.
\<close>

datatype entry = RegFile string | Directory

type_synonym tree = "string \<rightharpoonup> entry"

datatype errno = ENOENT | EEXIST | ENOTDIR | EISDIR | EACCES

datatype error = IOError errno string | OSError errno string

record env =
  src_dir :: tree
  aprinter_dir :: tree

text \<open>\<^verbatim>\<open>with open(full_path, 'rb') as f: file_content = f.read()\<close>.\<close>

definition read_file :: "tree \<Rightarrow> string \<Rightarrow> error + string" where
  "read_file t p =
     (case t p of
        None \<Rightarrow> Inl (IOError ENOENT p)
      | Some Directory \<Rightarrow> Inl (IOError EISDIR p)
      | Some (RegFile file_content) \<Rightarrow> Inr file_content)"

section \<open>The closure resolver\<close>

text \<open>
  \<^verbatim>\<open>state['pending_files']\<close> and \<^verbatim>\<open>state['processed_files']\<close>, the two Python sets
  that the functions mutate; the model passes the pair and returns it updated.
\<close>

record state =
  pending_files :: "string set"
  processed_files :: "string set"

text \<open>
  The body of the \<^verbatim>\<open>for match in ...finditer(file_content)\<close> loop of
  \<^verbatim>\<open>process_file\<close>.
\<close>

definition add_include :: "state \<Rightarrow> string \<Rightarrow> state" where
  "add_include st inc_path =
     (if inc_path \<notin> pending_files st \<and> inc_path \<notin> processed_files st
      then st\<lparr>pending_files := insert inc_path (pending_files st)\<rparr>
      else st)"

definition base_dir :: "env \<Rightarrow> string \<Rightarrow> tree" where
  "base_dir e file_path =
     (if file_is_from_aprinter file_path then aprinter_dir e else src_dir e)"

definition process_file :: "env \<Rightarrow> state \<Rightarrow> string \<Rightarrow> error + state" where
  "process_file e st file_path =
     (case read_file (base_dir e file_path) file_path of
        Inl err \<Rightarrow> Inl err
      | Inr file_content \<Rightarrow> Inr (foldl add_include st (finditer file_content)))"

text \<open>
  One pass of the \<^verbatim>\<open>while\<close> loop of \<^verbatim>\<open>process_pending_files\<close>, for the element
  \<open>file_path\<close> that \<^verbatim>\<open>pending_files.pop()\<close> returned: the pop, the insertion into
  \<^verbatim>\<open>processed_files\<close>, the scan.
\<close>

definition pop_pending :: "state \<Rightarrow> string \<Rightarrow> state" where
  "pop_pending st file_path = st\<lparr>pending_files := pending_files st - {file_path}\<rparr>"

definition add_processed :: "state \<Rightarrow> string \<Rightarrow> state" where
  "add_processed st file_path = st\<lparr>processed_files := insert file_path (processed_files st)\<rparr>"

definition loop_body :: "env \<Rightarrow> state \<Rightarrow> string \<Rightarrow> error + state" where
  "loop_body e st file_path =
     process_file e (add_processed (pop_pending st file_path) file_path) file_path"

text \<open>
  \<^verbatim>\<open>set.pop()\<close> removes an arbitrary element, so the loop is a relation: every element
  of \<^verbatim>\<open>pending_files\<close> may be the one popped. \<open>iterations e st ps st'\<close> holds when the
  loop can run \<open>length ps\<close> passes from \<open>st\<close>, popping the elements of \<open>ps\<close> in this
  order, none of them raising, and then stands at \<open>st'\<close>.
\<close>

inductive iterations :: "env \<Rightarrow> state \<Rightarrow> string list \<Rightarrow> state \<Rightarrow> bool" for e where
  no_pass: "iterations e st [] st"
| pass: "file_path \<in> pending_files st \<Longrightarrow> loop_body e st file_path = Inr st'
         \<Longrightarrow> iterations e st' ps st'' \<Longrightarrow> iterations e st (file_path # ps) st''"

text \<open>
  \<^verbatim>\<open>process_pending_files\<close> run to its end: it returns when \<^verbatim>\<open>pending_files\<close> is empty,
  and an exception of \<^verbatim>\<open>process_file\<close> leaves the loop and the function. The list is
  the order of the pops.
\<close>

inductive process_pending_files :: "env \<Rightarrow> state \<Rightarrow> string list \<Rightarrow> error + state \<Rightarrow> bool"
  for e where
  finished: "pending_files st = {} \<Longrightarrow> process_pending_files e st [] (Inr st)"
| raised: "file_path \<in> pending_files st \<Longrightarrow> loop_body e st file_path = Inl err
           \<Longrightarrow> process_pending_files e st [file_path] (Inl err)"
| looped: "file_path \<in> pending_files st \<Longrightarrow> loop_body e st file_path = Inr st'
           \<Longrightarrow> process_pending_files e st' ps r
           \<Longrightarrow> process_pending_files e st (file_path # ps) r"

text \<open>
  The file graph of the specification: an edge from a path to every path that a
  recognized directive of its file names, and the closure of a set of seeds.
\<close>

definition includes_of :: "env \<Rightarrow> string \<Rightarrow> string set" where
  "includes_of e p =
     (case read_file (base_dir e p) p of
        Inl err \<Rightarrow> {}
      | Inr file_content \<Rightarrow> set (finditer file_content))"

definition include_graph :: "env \<Rightarrow> (string \<times> string) set" where
  "include_graph e = {(p, q). q \<in> includes_of e p}"

definition closure :: "env \<Rightarrow> string set \<Rightarrow> string set" where
  "closure e seeds = (include_graph e)\<^sup>* `` seeds"

definition readable :: "env \<Rightarrow> string \<Rightarrow> bool" where
  "readable e p = (\<exists>file_content. read_file (base_dir e p) p = Inr file_content)"

definition all_includes :: "env \<Rightarrow> string set" where
  "all_includes e = (\<Union>p. includes_of e p)"

definition disjoint_sets :: "state \<Rightarrow> bool" where
  "disjoint_sets st = (pending_files st \<inter> processed_files st = {})"

definition initial :: "string set \<Rightarrow> state" where
  "initial seeds = \<lparr>pending_files = seeds, processed_files = {}\<rparr>"

section \<open>Seeding: the walk of the project tree\<close>

text \<open>\<^verbatim>\<open>os.path.join(a, b)\<close> of \<^verbatim>\<open>posixpath\<close>.\<close>

definition path_join :: "string \<Rightarrow> string \<Rightarrow> string" where
  "path_join a b =
     (if prefix ''/'' b then b
      else if a = [] \<or> suffix ''/'' a then a @ b
      else a @ ''/'' @ b)"

text \<open>
  What \<^verbatim>\<open>os.listdir\<close> and \<^verbatim>\<open>os.stat\<close> answer below \<^verbatim>\<open>src_dir\<close>. A directory lists
  its entries by name (\<^verbatim>\<open>os.listdir\<close> never returns \<^verbatim>\<open>.\<close> or \<^verbatim>\<open>..\<close>), or cannot be
  listed and \<^verbatim>\<open>os.listdir\<close> raises; an entry is a directory, a regular file with its
  bytes, something else (\<^verbatim>\<open>S_ISDIR\<close> and \<^verbatim>\<open>S_ISREG\<close> both false), or cannot be
  stat'ed and \<^verbatim>\<open>os.stat\<close> raises. \<^verbatim>\<open>os.stat\<close> follows symbolic links, so a link
  appears as its target; the datatype is finite, so links do not form a cycle.
\<close>

datatype node =
    DirNode "(string \<times> node) list"
  | Unlistable
  | RegNode string
  | OtherNode
  | Unstatable

text \<open>
  \<^verbatim>\<open>collect_files(state, dir_path)\<close>, with the directory that
  \<^verbatim>\<open>os.path.join(src_dir, dir_path)\<close> names as third argument; \<open>collect_names\<close> is its
  \<^verbatim>\<open>for name in os.listdir(full_dir_path)\<close> loop.
\<close>

fun collect_files :: "state \<Rightarrow> string \<Rightarrow> node \<Rightarrow> error + state"
  and collect_names :: "state \<Rightarrow> string \<Rightarrow> (string \<times> node) list \<Rightarrow> error + state" where
  "collect_files st dir_path d =
     (if dir_path = ''aprinter'' then Inr st
      else (case d of
              DirNode entries \<Rightarrow> collect_names st dir_path entries
            | Unlistable \<Rightarrow> Inl (OSError EACCES dir_path)
            | _ \<Rightarrow> Inl (OSError ENOTDIR dir_path)))"
| "collect_names st dir_path [] = Inr st"
| "collect_names st dir_path ((name, n) # rest) =
     (let path = path_join dir_path name in
      case n of
        Unstatable \<Rightarrow> Inl (OSError ENOENT path)
      | RegNode file_content \<Rightarrow>
          collect_names
            (if suffix ''.h'' path then st\<lparr>pending_files := insert path (pending_files st)\<rparr> else st)
            dir_path rest
      | OtherNode \<Rightarrow> collect_names st dir_path rest
      | _ \<Rightarrow> (case collect_files st path n of
                Inl err \<Rightarrow> Inl err
              | Inr st' \<Rightarrow> collect_names st' dir_path rest))"

text \<open>
  Directory trees as a file system has them: a name is not empty and has no separator,
  and the names of one directory are distinct.
\<close>

definition valid_name :: "string \<Rightarrow> bool" where
  "valid_name name = (name \<noteq> [] \<and> CHR ''/'' \<notin> set name)"

fun valid_tree :: "node \<Rightarrow> bool" where
  "valid_tree (DirNode entries) =
     (distinct (map fst entries)
      \<and> (\<forall>en\<in>set entries. valid_name (fst en) \<and> valid_tree (snd en)))"
| "valid_tree _ = True"

text \<open>
  The specification's wording of the seeds: the relative paths of the regular files of
  the tree whose name ends in \<^verbatim>\<open>.h\<close>, those below the top-level directory \<^verbatim>\<open>aprinter\<close>
  left out. \<open>lookup\<close> descends along the names of a path, \<open>rel_path\<close> writes the names as
  a relative path.
\<close>

fun lookup :: "node \<Rightarrow> string list \<Rightarrow> node option" where
  "lookup n [] = Some n"
| "lookup (DirNode entries) (c # cs) =
     (case map_of entries c of None \<Rightarrow> None | Some m \<Rightarrow> lookup m cs)"
| "lookup _ (c # cs) = None"

definition reg_at :: "node \<Rightarrow> string list \<Rightarrow> bool" where
  "reg_at n cs = (\<exists>file_content. lookup n cs = Some (RegNode file_content))"

definition rel_path :: "string list \<Rightarrow> string" where
  "rel_path cs = foldl path_join [] cs"

definition header_paths :: "node \<Rightarrow> string set" where
  "header_paths root =
     {rel_path cs | cs. cs \<noteq> [] \<and> reg_at root cs
                        \<and> suffix ''.h'' (last cs) \<and> hd cs \<noteq> ''aprinter''}"

text \<open>
  The same set for the entries of the directory reached along \<open>pre\<close>, and its part that
  passes through one entry; they carry the induction over the walk.
\<close>

definition headers_below :: "string list \<Rightarrow> (string \<times> node) list \<Rightarrow> string set" where
  "headers_below pre entries =
     {rel_path (pre @ cs) | cs. cs \<noteq> [] \<and> reg_at (DirNode entries) cs
                        \<and> suffix ''.h'' (last cs) \<and> hd (pre @ cs) \<noteq> ''aprinter''}"

definition headers_via :: "string list \<Rightarrow> string \<Rightarrow> node \<Rightarrow> string set" where
  "headers_via pre name n =
     {rel_path (pre @ name # cs) | cs. reg_at n cs
        \<and> suffix ''.h'' (last (name # cs)) \<and> hd (pre @ [name]) \<noteq> ''aprinter''}"

section \<open>The selective mirror\<close>


















section \<open>The whole run\<close>

text \<open>
  The project tree as \<^verbatim>\<open>open\<close> and the mirror see it, read off the tree that the walk
  sees; entries that are neither directories nor regular files are not modelled for
  \<^verbatim>\<open>open\<close>.
\<close>

fun store_node :: "string \<Rightarrow> node \<Rightarrow> (string \<times> entry) list"
  and store_entries :: "string \<Rightarrow> (string \<times> node) list \<Rightarrow> (string \<times> entry) list" where
  "store_node path (DirNode entries) = (path, Directory) # store_entries path entries"
| "store_node path Unlistable = [(path, Directory)]"
| "store_node path (RegNode file_content) = [(path, RegFile file_content)]"
| "store_node path OtherNode = []"
| "store_node path Unstatable = []"
| "store_entries dir_path [] = []"
| "store_entries dir_path ((name, n) # rest) =
     store_node (path_join dir_path name) n @ store_entries dir_path rest"




section \<open>A small file graph\<close>

text \<open>
  A project header that includes a library header, and two library headers that include
  each other; one line names a system header. The theorems below are instantiated at it.
\<close>

definition example_src :: tree where
  "example_src = [''foo.h'' \<mapsto> RegFile (''#include <aprinter/bar.h>'' @ [newline])]"

definition example_aprinter :: tree where
  "example_aprinter =
     [''aprinter/bar.h'' \<mapsto>
        RegFile (''#include <aprinter/baz.h>'' @ [newline] @ ''#include <vector>'' @ [newline]),
      ''aprinter/baz.h'' \<mapsto> RegFile (''  #  include <aprinter/bar.h>  '' @ [newline])]"

definition example_env :: env where
  "example_env = \<lparr>src_dir = example_src, aprinter_dir = example_aprinter\<rparr>"

text \<open>
  A project tree: two headers, a source file, a special file, a copy of a library
  header under the top-level \<^verbatim>\<open>aprinter\<close>, and a nested directory of the same name.
\<close>

definition example_tree :: node where
  "example_tree =
     DirNode [(''foo.h'', RegNode (''#include <aprinter/bar.h>'' @ [newline])),
              (''aprinter'', DirNode [(''bar.h'', RegNode [])]),
              (''ip'', DirNode [(''IpStack.h'', RegNode []),
                                (''IpStack.cpp'', RegNode []),
                                (''pipe.h'', OtherNode),
                                (''aprinter'', DirNode [(''inner.h'', RegNode [])])])]"



section \<open>Lemmas on the include pattern\<close>

lemma prefix_aprinter_iff_first_segment:
  "prefix ''aprinter/'' p \<longleftrightarrow> (first_segment p = ''aprinter'' \<and> p \<noteq> ''aprinter'')"
proof
  assume "prefix ''aprinter/'' p"
  then obtain r where "p = ''aprinter/'' @ r" by (auto simp: prefix_def)
  then show "first_segment p = ''aprinter'' \<and> p \<noteq> ''aprinter''"
    by (simp add: first_segment_def)
next
  assume h: "first_segment p = ''aprinter'' \<and> p \<noteq> ''aprinter''"
  let ?P = "\<lambda>c. c \<noteq> CHR ''/''"
  have split: "p = ''aprinter'' @ dropWhile ?P p"
    using h takeWhile_dropWhile_id [of ?P p] by (simp add: first_segment_def)
  have ne: "dropWhile ?P p \<noteq> []"
  proof
    assume "dropWhile ?P p = []"
    with split have "p = ''aprinter''" by simp
    with h show False by simp
  qed
  then have "hd (dropWhile ?P p) = CHR ''/''"
    using hd_dropWhile [of ?P p] by simp
  with ne obtain t where "dropWhile ?P p = CHR ''/'' # t"
    by (cases "dropWhile ?P p") auto
  with split have "p = ''aprinter/'' @ t" by simp
  then show "prefix ''aprinter/'' p" by (metis prefixI)
qed

lemma takeWhile_eq_replicate:
  "takeWhile (\<lambda>c. c = x) s = replicate (length (takeWhile (\<lambda>c. c = x) s)) x"
  by (induction s) auto

lemma lstrip_spaces_decomp: "\<exists>a. s = replicate a (CHR '' '') @ lstrip_spaces s"
proof -
  have "s = takeWhile (\<lambda>c. c = CHR '' '') s @ lstrip_spaces s"
    by (simp add: lstrip_spaces_def)
  then show ?thesis using takeWhile_eq_replicate [of "CHR '' ''" s] by metis
qed

lemma lstrip_spaces_replicate:
  "t = [] \<or> hd t \<noteq> CHR '' '' \<Longrightarrow> lstrip_spaces (replicate a (CHR '' '') @ t) = t"
  by (cases t) (auto simp: lstrip_spaces_def dropWhile_append)

lemma rstrip_spaces_decomp: "\<exists>d. s = rstrip_spaces s @ replicate d (CHR '' '')"
proof -
  obtain a where "rev s = replicate a (CHR '' '') @ lstrip_spaces (rev s)"
    using lstrip_spaces_decomp by blast
  then have "rev (rev s) = rev (replicate a (CHR '' '') @ lstrip_spaces (rev s))" by simp
  then have "s = rstrip_spaces s @ replicate a (CHR '' '')"
    by (simp add: rstrip_spaces_def lstrip_spaces_def)
  then show ?thesis ..
qed

lemma rstrip_spaces_replicate:
  "t = [] \<or> last t \<noteq> CHR '' '' \<Longrightarrow> rstrip_spaces (t @ replicate d (CHR '' '')) = t"
proof -
  assume h: "t = [] \<or> last t \<noteq> CHR '' ''"
  then have "rev t = [] \<or> hd (rev t) \<noteq> CHR '' ''" by (auto simp: hd_rev)
  then have "lstrip_spaces (replicate d (CHR '' '') @ rev t) = rev t"
    by (rule lstrip_spaces_replicate)
  then show ?thesis by (simp add: rstrip_spaces_def lstrip_spaces_def)
qed

lemma regex_form_imp_match:
  assumes "regex_form line grp"
  shows "include_match line = Some grp"
proof -
  from assms obtain a b c d r where
    line: "line = replicate a (CHR '' '') @ ''#'' @ replicate b (CHR '' '') @ ''include''
               @ replicate c (CHR '' '') @ ''<'' @ grp @ ''>'' @ replicate d (CHR '' '')"
    and grp: "grp = ''aprinter/'' @ r" and r: "r \<noteq> []"
    by (auto simp: regex_form_def)
  have 1: "lstrip_spaces line = CHR ''#'' # (replicate b (CHR '' '') @ ''include''
               @ replicate c (CHR '' '') @ ''<'' @ grp @ ''>'' @ replicate d (CHR '' ''))"
    unfolding line by (simp add: lstrip_spaces_replicate)
  have 2: "lstrip_spaces (replicate b (CHR '' '') @ ''include''
               @ replicate c (CHR '' '') @ ''<'' @ grp @ ''>'' @ replicate d (CHR '' ''))
           = ''include'' @ replicate c (CHR '' '') @ ''<'' @ grp @ ''>'' @ replicate d (CHR '' '')"
    by (simp add: lstrip_spaces_replicate)
  have 3: "lstrip_spaces (replicate c (CHR '' '') @ ''<'' @ grp @ ''>'' @ replicate d (CHR '' ''))
           = CHR ''<'' # (grp @ ''>'' @ replicate d (CHR '' ''))"
    by (simp add: lstrip_spaces_replicate)
  have 4: "rstrip_spaces (grp @ ''>'' @ replicate d (CHR '' '')) = grp @ ''>''"
    using rstrip_spaces_replicate [of "grp @ ''>''" d] by simp
  show ?thesis
    unfolding include_match_def 1
    using 2 3 4 r by (simp add: grp)
qed

lemma match_imp_regex_form:
  assumes m: "include_match line = Some grp" and nl: "newline \<notin> set line"
  shows "regex_form line grp"
proof -
  obtain a where a: "line = replicate a (CHR '' '') @ lstrip_spaces line"
    using lstrip_spaces_decomp by blast
  from m obtain r1 where l1: "lstrip_spaces line = CHR ''#'' # r1"
    by (auto simp: include_match_def split: list.splits if_splits)
  obtain b where b: "r1 = replicate b (CHR '' '') @ lstrip_spaces r1"
    using lstrip_spaces_decomp by blast
  from m l1 have p2: "prefix ''include'' (lstrip_spaces r1)"
    by (auto simp: include_match_def Let_def split: list.splits if_splits)
  then have l2: "lstrip_spaces r1 = ''include'' @ drop 7 (lstrip_spaces r1)"
    by (auto simp: prefix_def)
  obtain c where c: "drop 7 (lstrip_spaces r1)
      = replicate c (CHR '' '') @ lstrip_spaces (drop 7 (lstrip_spaces r1))"
    using lstrip_spaces_decomp by blast
  from m l1 p2 obtain r3 where l3: "lstrip_spaces (drop 7 (lstrip_spaces r1)) = CHR ''<'' # r3"
    by (auto simp: include_match_def Let_def split: list.splits if_splits)
  obtain d where d: "r3 = rstrip_spaces r3 @ replicate d (CHR '' '')"
    using rstrip_spaces_decomp by blast
  from m l1 p2 l3 have body: "rstrip_spaces r3 \<noteq> []" "last (rstrip_spaces r3) = CHR ''>''"
    "prefix ''aprinter/'' grp" "9 < length grp" "grp = butlast (rstrip_spaces r3)"
    by (auto simp: include_match_def Let_def split: if_splits)
  then have l4: "rstrip_spaces r3 = grp @ ''>''"
    using append_butlast_last_id [of "rstrip_spaces r3"] by simp
  from body obtain r where r: "grp = ''aprinter/'' @ r" by (auto simp: prefix_def)
  from \<open>9 < length grp\<close> r have rne: "r \<noteq> []" by auto
  have line: "line = replicate a (CHR '' '') @ ''#'' @ replicate b (CHR '' '') @ ''include''
               @ replicate c (CHR '' '') @ ''<'' @ grp @ ''>'' @ replicate d (CHR '' '')"
    using a l1 b l2 c l3 d l4 by (metis append_Cons append_Nil append_assoc)
  then have "set r \<subseteq> set line" using r by auto
  with nl have "newline \<notin> set r" by auto
  with line r rne show ?thesis unfolding regex_form_def by blast
qed

lemma set_map_filter:
  "set (List.map_filter f xs) = {y. \<exists>x\<in>set xs. f x = Some y}"
  by (induction xs) (auto split: option.splits)

lemma split_lines_no_newline: "line \<in> set (split_lines s) \<Longrightarrow> newline \<notin> set line"
  by (induction s arbitrary: line) (auto split: list.splits if_splits)

section \<open>Lemmas on the resolver\<close>

lemma foldl_add_include:
  "foldl add_include st incs
   = st\<lparr>pending_files := pending_files st \<union> (set incs - processed_files st)\<rparr>"
proof (induction incs arbitrary: st)
  case Nil
  show ?case by simp
next
  case (Cons i incs)
  show ?case
    unfolding foldl_Cons Cons.IH
    by (cases st) (auto simp: add_include_def)
qed

lemma loop_body_Inr:
  "loop_body e st p = Inr st' \<longleftrightarrow>
     (\<exists>c. read_file (base_dir e p) p = Inr c \<and>
          st' = \<lparr>pending_files = (pending_files st - {p}) \<union> (set (finditer c) - insert p (processed_files st)),
                 processed_files = insert p (processed_files st)\<rparr>)"
  by (auto simp: loop_body_def process_file_def foldl_add_include pop_pending_def add_processed_def
      split: sum.splits)

lemma loop_body_Inl:
  "loop_body e st p = Inl err \<longleftrightarrow> read_file (base_dir e p) p = Inl err"
  by (auto simp: loop_body_def process_file_def split: sum.splits)

lemma loop_body_sets:
  assumes "loop_body e st p = Inr st'"
  shows "processed_files st' = insert p (processed_files st)"
    and "pending_files st' = (pending_files st - {p}) \<union> (includes_of e p - insert p (processed_files st))"
  using assms by (auto simp: loop_body_Inr includes_of_def)

lemma loop_body_disjoint:
  "loop_body e st p = Inr st' \<Longrightarrow> disjoint_sets st \<Longrightarrow> disjoint_sets st'"
  by (auto simp: loop_body_Inr disjoint_sets_def)

lemma iterations_processed:
  "iterations e st ps st' \<Longrightarrow> processed_files st' = processed_files st \<union> set ps"
  by (induction rule: iterations.induct) (auto simp: loop_body_sets)

lemma iterations_known:
  "iterations e st ps st' \<Longrightarrow>
   pending_files st' \<union> processed_files st'
   = pending_files st \<union> processed_files st \<union> (\<Union>p\<in>set ps. includes_of e p)"
  by (induction rule: iterations.induct) (auto simp: loop_body_sets)

lemma iterations_disjoint:
  "iterations e st ps st' \<Longrightarrow> disjoint_sets st \<Longrightarrow>
   disjoint_sets st' \<and> distinct ps \<and> set ps \<inter> processed_files st = {}"
proof (induction rule: iterations.induct)
  case (no_pass st)
  then show ?case by simp
next
  case (pass p st st' ps st'')
  then have d': "disjoint_sets st'" by (simp add: loop_body_disjoint)
  with pass.IH have ih: "disjoint_sets st''" "distinct ps" "set ps \<inter> processed_files st' = {}"
    by simp_all
  have p': "processed_files st' = insert p (processed_files st)"
    using pass.hyps(2) by (rule loop_body_sets)
  from pass.hyps(1) pass.prems have "p \<notin> processed_files st" by (auto simp: disjoint_sets_def)
  with ih p' show ?case by auto
qed

lemma iterations_split:
  "iterations e st (ps @ qs) st'' \<Longrightarrow> \<exists>st'. iterations e st ps st' \<and> iterations e st' qs st''"
proof (induction ps arbitrary: st)
  case Nil
  then show ?case by (auto intro: iterations.intros)
next
  case (Cons p ps)
  from Cons.prems obtain st1 where 1: "p \<in> pending_files st" "loop_body e st p = Inr st1"
    "iterations e st1 (ps @ qs) st''"
    by (auto elim: iterations.cases)
  from Cons.IH [OF 1(3)] obtain st' where "iterations e st1 ps st'" "iterations e st' qs st''"
    by blast
  with 1 show ?case by (auto intro: iterations.intros)
qed

lemma iterations_deterministic:
  "iterations e st ps st1 \<Longrightarrow> iterations e st ps st2 \<Longrightarrow> st1 = st2"
proof (induction arbitrary: st2 rule: iterations.induct)
  case (no_pass st)
  then show ?case by (auto elim: iterations.cases)
next
  case (pass p st st' ps st'')
  from pass.prems pass.hyps(2) have "iterations e st' ps st2"
    by (auto elim: iterations.cases)
  then show ?case by (rule pass.IH)
qed

lemma finished_iff:
  "process_pending_files e st ps (Inr st') \<longleftrightarrow> iterations e st ps st' \<and> pending_files st' = {}"
proof
  assume "process_pending_files e st ps (Inr st')"
  then show "iterations e st ps st' \<and> pending_files st' = {}"
    by (induction st ps "Inr st' :: error + state" rule: process_pending_files.induct)
       (auto intro: iterations.intros)
next
  assume "iterations e st ps st' \<and> pending_files st' = {}"
  then have "iterations e st ps st'" "pending_files st' = {}" by simp_all
  then show "process_pending_files e st ps (Inr st')"
    by (induction rule: iterations.induct) (auto intro: process_pending_files.intros)
qed

lemma raised_iff:
  "process_pending_files e st ps (Inl err) \<longleftrightarrow>
     (\<exists>qs p st'. ps = qs @ [p] \<and> iterations e st qs st' \<and> p \<in> pending_files st'
                 \<and> loop_body e st' p = Inl err)"
proof
  assume "process_pending_files e st ps (Inl err)"
  then show "\<exists>qs p st'. ps = qs @ [p] \<and> iterations e st qs st' \<and> p \<in> pending_files st'
                 \<and> loop_body e st' p = Inl err"
  proof (induction st ps "Inl err :: error + state" rule: process_pending_files.induct)
    case (raised p st)
    then have "[p] = [] @ [p] \<and> iterations e st [] st \<and> p \<in> pending_files st \<and> loop_body e st p = Inl err"
      by (auto intro: iterations.intros)
    then show ?case by blast
  next
    case (looped p st st' ps)
    then obtain qs q st2 where "ps = qs @ [q]" "iterations e st' qs st2" "q \<in> pending_files st2"
      "loop_body e st2 q = Inl err" by blast
    with looped.hyps(1,2) have "p # ps = (p # qs) @ [q] \<and> iterations e st (p # qs) st2
       \<and> q \<in> pending_files st2 \<and> loop_body e st2 q = Inl err"
      by (auto intro: iterations.intros)
    then show ?case by blast
  qed
next
  assume "\<exists>qs p st'. ps = qs @ [p] \<and> iterations e st qs st' \<and> p \<in> pending_files st'
                 \<and> loop_body e st' p = Inl err"
  then obtain qs p st' where ps: "ps = qs @ [p]" and it: "iterations e st qs st'"
    and p: "p \<in> pending_files st'" "loop_body e st' p = Inl err" by blast
  from it p show "process_pending_files e st ps (Inl err)"
    unfolding ps
    by (induction rule: iterations.induct) (auto intro: process_pending_files.intros)
qed

lemma includes_of_ran:
  assumes "q \<in> includes_of e p"
  shows "\<exists>c. RegFile c \<in> ran (src_dir e) \<union> ran (aprinter_dir e) \<and> q \<in> set (finditer c)"
proof -
  from assms obtain c where c: "read_file (base_dir e p) p = Inr c" "q \<in> set (finditer c)"
    by (auto simp: includes_of_def split: sum.splits)
  then have "base_dir e p p = Some (RegFile c)"
    by (auto simp: read_file_def split: option.splits entry.splits)
  then have "RegFile c \<in> ran (base_dir e p)" by (auto simp: ran_def)
  then have "RegFile c \<in> ran (src_dir e) \<union> ran (aprinter_dir e)"
    by (auto simp: base_dir_def split: if_splits)
  with c show ?thesis by blast
qed

lemma all_includes_finite:
  assumes "finite (ran (src_dir e))" "finite (ran (aprinter_dir e))"
  shows "finite (all_includes e)"
proof -
  let ?f = "\<lambda>en. case en of RegFile c \<Rightarrow> set (finditer c) | Directory \<Rightarrow> {}"
  have "all_includes e \<subseteq> (\<Union>en \<in> ran (src_dir e) \<union> ran (aprinter_dir e). ?f en)"
  proof
    fix q assume "q \<in> all_includes e"
    then obtain p where "q \<in> includes_of e p" by (auto simp: all_includes_def)
    from includes_of_ran [OF this] obtain c where
      "RegFile c \<in> ran (src_dir e) \<union> ran (aprinter_dir e)" "q \<in> set (finditer c)" by blast
    then have "RegFile c \<in> ran (src_dir e) \<union> ran (aprinter_dir e) \<and> q \<in> ?f (RegFile c)" by simp
    then show "q \<in> (\<Union>en \<in> ran (src_dir e) \<union> ran (aprinter_dir e). ?f en)" by blast
  qed
  moreover have "finite (\<Union>en \<in> ran (src_dir e) \<union> ran (aprinter_dir e). ?f en)"
    using assms by (auto split: entry.splits)
  ultimately show ?thesis by (rule finite_subset)
qed

lemma includes_of_subset_all: "includes_of e p \<subseteq> all_includes e"
  by (auto simp: all_includes_def)

lemma iterations_popped_universe:
  "iterations e st ps st' \<Longrightarrow> set ps \<subseteq> pending_files st \<union> all_includes e"
proof (induction rule: iterations.induct)
  case (no_pass st)
  show ?case by simp
next
  case (pass p st st' ps st'')
  have "pending_files st' \<subseteq> pending_files st \<union> includes_of e p"
    using loop_body_sets(2) [OF pass.hyps(2)] by auto
  with pass.IH pass.hyps(1) includes_of_subset_all [of e p] show ?case by auto
qed

lemma iterations_bounded:
  assumes "iterations e st ps st'" "disjoint_sets st"
    and "finite (pending_files st)" "finite (all_includes e)"
  shows "length ps \<le> card (pending_files st \<union> all_includes e)"
proof -
  from iterations_disjoint [OF assms(1,2)] have "distinct ps" by simp
  then have "length ps = card (set ps)" by (simp add: distinct_card)
  also have "\<dots> \<le> card (pending_files st \<union> all_includes e)"
    using assms(3,4) iterations_popped_universe [OF assms(1)] by (intro card_mono) auto
  finally show ?thesis .
qed

lemma run_exists:
  assumes "finite (all_includes e)"
  shows "finite (pending_files st) \<Longrightarrow> disjoint_sets st \<Longrightarrow> \<exists>ps r. process_pending_files e st ps r"
proof (induction "card ((pending_files st \<union> all_includes e) - processed_files st)"
    arbitrary: st rule: less_induct)
  case less
  show ?case
  proof (cases "pending_files st = {}")
    case True
    then show ?thesis by (blast intro: process_pending_files.intros)
  next
    case False
    then obtain p where p: "p \<in> pending_files st" by blast
    show ?thesis
    proof (cases "loop_body e st p")
      case (Inl err)
      with p show ?thesis by (blast intro: process_pending_files.intros)
    next
      case (Inr st')
      note sets = loop_body_sets [OF Inr]
      have pend: "pending_files st' \<subseteq> pending_files st \<union> includes_of e p"
        using sets(2) by auto
      have fin_inc: "finite (includes_of e p)"
        using assms includes_of_subset_all [of e p] by (rule rev_finite_subset)
      have fin': "finite (pending_files st')"
        using pend less.prems(1) fin_inc by (meson finite_UnI finite_subset)
      have disj': "disjoint_sets st'" using Inr less.prems(2) by (rule loop_body_disjoint)
      have pnot: "p \<notin> processed_files st" using p less.prems(2) by (auto simp: disjoint_sets_def)
      have sub: "(pending_files st' \<union> all_includes e) - processed_files st'
                 \<subset> (pending_files st \<union> all_includes e) - processed_files st"
        using pend sets(1) p pnot includes_of_subset_all [of e p] by auto
      have "finite ((pending_files st \<union> all_includes e) - processed_files st)"
        using assms less.prems(1) by simp
      with sub have "card ((pending_files st' \<union> all_includes e) - processed_files st')
                 < card ((pending_files st \<union> all_includes e) - processed_files st)"
        by (intro psubset_card_mono)
      from less.hyps [OF this fin' disj'] obtain ps r where "process_pending_files e st' ps r"
        by blast
      with p Inr show ?thesis by (blast intro: process_pending_files.intros)
    qed
  qed
qed

lemma closure_seeds: "seeds \<subseteq> closure e seeds"
  by (auto simp: closure_def)

lemma closure_step: "p \<in> closure e seeds \<Longrightarrow> includes_of e p \<subseteq> closure e seeds"
  by (auto simp: closure_def include_graph_def intro: rtrancl_into_rtrancl)

lemma closure_least:
  assumes "seeds \<subseteq> T" and "\<And>p. p \<in> T \<Longrightarrow> includes_of e p \<subseteq> T"
  shows "closure e seeds \<subseteq> T"
proof
  fix q assume "q \<in> closure e seeds"
  then obtain s where s: "s \<in> seeds" "(s, q) \<in> (include_graph e)\<^sup>*"
    by (auto simp: closure_def)
  from s(2) show "q \<in> T"
  proof (induction rule: rtrancl_induct)
    case base
    with s(1) assms(1) show ?case by auto
  next
    case (step y z)
    then have "z \<in> includes_of e y" by (simp add: include_graph_def)
    with assms(2) [OF step.IH] show ?case by auto
  qed
qed

lemma iterations_within_closure:
  "iterations e st ps st' \<Longrightarrow> pending_files st \<union> processed_files st \<subseteq> closure e seeds
   \<Longrightarrow> pending_files st' \<union> processed_files st' \<subseteq> closure e seeds"
proof (induction rule: iterations.induct)
  case (no_pass st)
  then show ?case by simp
next
  case (pass p st st' ps st'')
  from pass.hyps(1) pass.prems have pc: "p \<in> closure e seeds" by auto
  then have "includes_of e p \<subseteq> closure e seeds" by (rule closure_step)
  with pc pass.prems loop_body_sets [OF pass.hyps(2)]
  have "pending_files st' \<union> processed_files st' \<subseteq> closure e seeds" by auto
  then show ?case by (rule pass.IH)
qed

lemma complete_run_closure:
  assumes "iterations e (initial seeds) ps st" "pending_files st = {}"
  shows "processed_files st = closure e seeds"
proof
  have "pending_files (initial seeds) \<union> processed_files (initial seeds) \<subseteq> closure e seeds"
    using closure_seeds by (simp add: initial_def)
  from iterations_within_closure [OF assms(1) this]
  show "processed_files st \<subseteq> closure e seeds" by simp
next
  have known: "processed_files st = seeds \<union> (\<Union>p\<in>set ps. includes_of e p)"
    using iterations_known [OF assms(1)] assms(2) by (simp add: initial_def)
  have proc: "processed_files st = set ps"
    using iterations_processed [OF assms(1)] by (simp add: initial_def)
  show "closure e seeds \<subseteq> processed_files st"
  proof (rule closure_least)
    show "seeds \<subseteq> processed_files st" using known by auto
  next
    fix p assume "p \<in> processed_files st"
    then have "p \<in> set ps" using proc by simp
    then show "includes_of e p \<subseteq> processed_files st" using known by auto
  qed
qed

lemma includes_of_prefix: "q \<in> includes_of e p \<Longrightarrow> prefix ''aprinter/'' q"
proof -
  assume "q \<in> includes_of e p"
  then obtain c where "q \<in> set (finditer c)" by (auto simp: includes_of_def split: sum.splits)
  then obtain line where "include_match line = Some q"
    by (auto simp: finditer_def List.map_filter_def)
  then show ?thesis
    by (auto simp: include_match_def Let_def split: list.splits if_splits)
qed

section \<open>Lemmas on the walk\<close>

lemma rel_path_simps: "rel_path [] = []" "rel_path (pre @ [name]) = path_join (rel_path pre) name"
  by (simp_all add: rel_path_def)

lemma rel_path_shape:
  "list_all valid_name pre \<Longrightarrow> pre \<noteq> [] \<Longrightarrow>
   rel_path pre \<noteq> [] \<and> last (rel_path pre) \<noteq> CHR ''/'' \<and> first_segment (rel_path pre) = hd pre"
proof (induction pre rule: rev_induct)
  case Nil
  then show ?case by simp
next
  case (snoc name pre)
  then have vn: "name \<noteq> []" "CHR ''/'' \<notin> set name" by (simp_all add: valid_name_def)
  then have np: "\<not> prefix ''/'' name" by (cases name) auto
  from vn have ln: "last name \<noteq> CHR ''/''" using last_in_set by metis
  show ?case
  proof (cases "pre = []")
    case True
    with vn np ln show ?thesis
      by (auto simp: rel_path_def path_join_def first_segment_def takeWhile_eq_all_conv)
  next
    case False
    with snoc have ih: "rel_path pre \<noteq> []" "last (rel_path pre) \<noteq> CHR ''/''"
      "first_segment (rel_path pre) = hd pre" by simp_all
    from ih(1,2) have ns: "\<not> suffix ''/'' (rel_path pre)"
      by (auto simp: suffix_def)
    have eq: "rel_path (pre @ [name]) = rel_path pre @ ''/'' @ name"
      using ih(1) ns np by (simp add: rel_path_simps path_join_def)
    have "takeWhile (\<lambda>c. c \<noteq> CHR ''/'') (rel_path pre @ CHR ''/'' # name)
          = takeWhile (\<lambda>c. c \<noteq> CHR ''/'') (rel_path pre)"
      by (auto simp: takeWhile_append takeWhile_eq_all_conv [THEN iffD2])
    with eq ih(3) False vn ln show ?thesis
      by (simp add: first_segment_def)
  qed
qed

lemma rel_path_snoc:
  "list_all valid_name pre \<Longrightarrow> valid_name name \<Longrightarrow>
   rel_path (pre @ [name]) = (if pre = [] then name else rel_path pre @ ''/'' @ name)"
proof -
  assume v: "list_all valid_name pre" "valid_name name"
  then have np: "\<not> prefix ''/'' name" by (cases name) (auto simp: valid_name_def)
  show ?thesis
  proof (cases "pre = []")
    case True
    with np show ?thesis by (simp add: rel_path_def path_join_def)
  next
    case False
    with v rel_path_shape [of pre] have "rel_path pre \<noteq> []" "last (rel_path pre) \<noteq> CHR ''/''"
      by simp_all
    then have "\<not> suffix ''/'' (rel_path pre)" by (auto simp: suffix_def)
    with False np \<open>rel_path pre \<noteq> []\<close> show ?thesis by (simp add: rel_path_simps path_join_def)
  qed
qed

lemma rel_path_not_aprinter:
  assumes "list_all valid_name pre" "pre = [] \<or> hd pre \<noteq> ''aprinter''"
  shows "rel_path pre \<noteq> ''aprinter''" and "\<not> file_is_from_aprinter (rel_path pre)"
proof -
  show "rel_path pre \<noteq> ''aprinter''"
  proof (cases "pre = []")
    case True
    then show ?thesis by (simp add: rel_path_def)
  next
    case False
    with assms rel_path_shape [of pre] have "first_segment (rel_path pre) \<noteq> ''aprinter''" by auto
    then show ?thesis by (auto simp: first_segment_def)
  qed
  show "\<not> file_is_from_aprinter (rel_path pre)"
  proof (cases "pre = []")
    case True
    then show ?thesis by (simp add: rel_path_def file_is_from_aprinter_def os_sep_def)
  next
    case False
    with assms rel_path_shape [of pre] have "first_segment (rel_path pre) \<noteq> ''aprinter''" by auto
    then show ?thesis
      using prefix_aprinter_iff_first_segment [of "rel_path pre"]
      by (simp add: file_is_from_aprinter_def os_sep_def)
  qed
qed

lemma suffix_h_path:
  assumes "list_all valid_name pre" "valid_name name"
  shows "suffix ''.h'' (rel_path (pre @ [name])) = suffix ''.h'' name"
proof (cases "pre = []")
  case True
  with assms rel_path_snoc [of "[]" name] show ?thesis by simp
next
  case False
  with assms have eq: "rel_path (pre @ [name]) = rel_path pre @ ''/'' @ name"
    by (simp add: rel_path_snoc)
  from assms(2) obtain c r where name: "name = r @ [c]" "c \<noteq> CHR ''/''"
    by (cases name rule: rev_cases) (auto simp: valid_name_def)
  show ?thesis
  proof (cases r rule: rev_cases)
    case Nil
    with name eq show ?thesis by (auto simp: suffix_to_prefix)
  next
    case (snoc r' c')
    with name eq show ?thesis by (simp add: suffix_to_prefix)
  qed
qed

lemma lookup_absent:
  "name \<notin> fst ` set rest \<Longrightarrow> lookup (DirNode rest) (name # cs) = None"
  using map_of_eq_None_iff [of rest name] by simp

lemma lookup_reg_iff: "reg_at (RegNode file_content) cs \<longleftrightarrow> cs = []"
  by (cases cs) (auto simp: reg_at_def)

lemma lookup_leaf_none:
  "n = Unlistable \<or> n = OtherNode \<or> n = Unstatable \<Longrightarrow> \<not> reg_at n cs"
  by (cases cs) (auto simp: reg_at_def)

lemma lookup_dir_nonempty: "reg_at (DirNode es) cs \<Longrightarrow> cs \<noteq> []"
  by (cases cs) (auto simp: reg_at_def)

lemma headers_below_Cons:
  assumes "name \<notin> fst ` set rest"
  shows "headers_below pre ((name, n) # rest) = headers_via pre name n \<union> headers_below pre rest"
proof (intro set_eqI iffI)
  fix x assume "x \<in> headers_below pre ((name, n) # rest)"
  then obtain cs where cs: "x = rel_path (pre @ cs)" "cs \<noteq> []"
    "reg_at (DirNode ((name, n) # rest)) cs"
    "suffix ''.h'' (last cs)" "hd (pre @ cs) \<noteq> ''aprinter''"
    by (auto simp: headers_below_def)
  from cs(2) obtain c cs' where c: "cs = c # cs'" by (cases cs) auto
  show "x \<in> headers_via pre name n \<union> headers_below pre rest"
  proof (cases "c = name")
    case True
    with cs c have "reg_at n cs'" by (simp add: reg_at_def)
    moreover from cs(5) c True have "hd (pre @ [name]) \<noteq> ''aprinter''" by (cases pre) auto
    ultimately have "x \<in> headers_via pre name n"
      using cs c True unfolding headers_via_def by blast
    then show ?thesis by simp
  next
    case False
    with cs c have "reg_at (DirNode rest) cs" by (simp add: reg_at_def)
    with cs have "x \<in> headers_below pre rest" unfolding headers_below_def by blast
    then show ?thesis by simp
  qed
next
  fix x assume "x \<in> headers_via pre name n \<union> headers_below pre rest"
  then show "x \<in> headers_below pre ((name, n) # rest)"
  proof
    assume "x \<in> headers_via pre name n"
    then obtain cs where cs: "x = rel_path (pre @ name # cs)" "reg_at n cs"
      "suffix ''.h'' (last (name # cs))" "hd (pre @ [name]) \<noteq> ''aprinter''"
      by (auto simp: headers_via_def)
    from cs(4) have "hd (pre @ name # cs) \<noteq> ''aprinter''" by (cases pre) auto
    moreover from cs(2) have "reg_at (DirNode ((name, n) # rest)) (name # cs)"
      by (simp add: reg_at_def)
    ultimately have "\<exists>cs'. x = rel_path (pre @ cs') \<and> cs' \<noteq> []
        \<and> reg_at (DirNode ((name, n) # rest)) cs'
        \<and> suffix ''.h'' (last cs') \<and> hd (pre @ cs') \<noteq> ''aprinter''"
      using cs(1,3) by (intro exI [of _ "name # cs"]) simp
    then show ?thesis unfolding headers_below_def by blast
  next
    assume "x \<in> headers_below pre rest"
    then obtain cs where cs: "x = rel_path (pre @ cs)" "cs \<noteq> []"
      "reg_at (DirNode rest) cs"
      "suffix ''.h'' (last cs)" "hd (pre @ cs) \<noteq> ''aprinter''"
      by (auto simp: headers_below_def)
    from cs(2) obtain c cs' where c: "cs = c # cs'" by (cases cs) auto
    have "c \<noteq> name"
    proof
      assume "c = name"
      with c lookup_absent [OF assms, of cs'] have "lookup (DirNode rest) cs = None" by simp
      with cs(3) show False by (simp add: reg_at_def)
    qed
    with cs(3) c have "reg_at (DirNode ((name, n) # rest)) cs" by (simp add: reg_at_def)
    with cs show ?thesis unfolding headers_below_def by blast
  qed
qed

lemma headers_below_Nil: "headers_below pre [] = {}"
proof -
  have "\<not> reg_at (DirNode []) cs" for cs by (cases cs) (auto simp: reg_at_def)
  then show ?thesis by (auto simp: headers_below_def)
qed

lemma headers_via_reg:
  "headers_via pre name (RegNode file_content) =
     (if suffix ''.h'' name \<and> hd (pre @ [name]) \<noteq> ''aprinter'' then {rel_path (pre @ [name])} else {})"
  by (auto simp: headers_via_def lookup_reg_iff)

lemma headers_via_leaf:
  "n = Unlistable \<or> n = OtherNode \<or> n = Unstatable \<Longrightarrow> headers_via pre name n = {}"
  using lookup_leaf_none [of n] by (auto simp: headers_via_def)

lemma headers_via_dir:
  "headers_via pre name (DirNode es) =
     (if hd (pre @ [name]) \<noteq> ''aprinter'' then headers_below (pre @ [name]) es else {})"
proof -
  have "hd ((pre @ [name]) @ cs) = hd (pre @ [name])" for cs :: "string list" by (cases pre) auto
  moreover have "cs \<noteq> [] \<Longrightarrow> last (name # cs) = last cs" for cs :: "string list" by simp
  ultimately show ?thesis
    unfolding headers_via_def headers_below_def
    by (auto dest: lookup_dir_nonempty) (metis lookup_dir_nonempty last_ConsR)+
qed

lemma path_aprinter_iff:
  assumes "list_all valid_name pre" "valid_name name" "pre = [] \<or> hd pre \<noteq> ''aprinter''"
  shows "rel_path (pre @ [name]) = ''aprinter'' \<longleftrightarrow> hd (pre @ [name]) = ''aprinter''"
proof (cases "pre = []")
  case True
  with assms rel_path_snoc [of "[]" name] show ?thesis by simp
next
  case False
  with assms have "hd (pre @ [name]) \<noteq> ''aprinter''" by simp
  moreover from this assms have "rel_path (pre @ [name]) \<noteq> ''aprinter''"
    by (intro rel_path_not_aprinter) simp_all
  ultimately show ?thesis by simp
qed

lemma suffix_h_not_aprinter:
  assumes "suffix ''.h'' name" "pre = [] \<or> hd pre \<noteq> ''aprinter''"
  shows "hd (pre @ [name]) \<noteq> ''aprinter''"
proof (cases "pre = []")
  case True
  from assms(1) have "name \<noteq> ''aprinter''" by (auto simp: suffix_to_prefix)
  with True show ?thesis by simp
next
  case False
  with assms(2) show ?thesis by simp
qed

lemma collect_walk:
  "\<forall>pre st'. collect_files st dir_path d = Inr st' \<longrightarrow> dir_path = rel_path pre
      \<longrightarrow> list_all valid_name pre \<longrightarrow> (pre = [] \<or> hd pre \<noteq> ''aprinter'') \<longrightarrow> valid_tree d
      \<longrightarrow> (\<exists>es. d = DirNode es \<and> pending_files st' = pending_files st \<union> headers_below pre es
                \<and> processed_files st' = processed_files st)"
  "\<forall>pre st'. collect_names st dir_path entries = Inr st' \<longrightarrow> dir_path = rel_path pre
      \<longrightarrow> list_all valid_name pre \<longrightarrow> (pre = [] \<or> hd pre \<noteq> ''aprinter'')
      \<longrightarrow> valid_tree (DirNode entries)
      \<longrightarrow> pending_files st' = pending_files st \<union> headers_below pre entries
          \<and> processed_files st' = processed_files st"
proof (induction st dir_path d and st dir_path entries rule: collect_files_collect_names.induct)
  case (1 st dir_path d)
  show ?case
  proof (intro allI impI)
    fix pre st'
    assume run: "collect_files st dir_path d = Inr st'" and dp: "dir_path = rel_path pre"
      and v: "list_all valid_name pre" "pre = [] \<or> hd pre \<noteq> ''aprinter''" "valid_tree d"
    from dp v have na: "dir_path \<noteq> ''aprinter''" using rel_path_not_aprinter(1) by simp
    with run obtain es where d: "d = DirNode es" and names: "collect_names st dir_path es = Inr st'"
      by (cases d) auto
    from "1.IH" [OF na d] names dp v d
    show "\<exists>es. d = DirNode es \<and> pending_files st' = pending_files st \<union> headers_below pre es
                \<and> processed_files st' = processed_files st"
      by blast
  qed
next
  case (2 st dir_path)
  show ?case by (simp add: headers_below_Nil)
next
  case (3 st dir_path name n rest)
  show ?case
  proof (intro allI impI)
    fix pre st'
    assume run: "collect_names st dir_path ((name, n) # rest) = Inr st'"
      and dp: "dir_path = rel_path pre"
      and v: "list_all valid_name pre" "pre = [] \<or> hd pre \<noteq> ''aprinter''"
      and vt: "valid_tree (DirNode ((name, n) # rest))"
    define path where "path = path_join dir_path name"
    from vt have fresh: "name \<notin> fst ` set rest" and vn: "valid_name name"
      and vsub: "valid_tree n" and vrest: "valid_tree (DirNode rest)"
      by auto
    have path: "path = rel_path (pre @ [name])" by (simp add: path_def dp rel_path_simps)
    have v': "list_all valid_name (pre @ [name])" using v(1) vn by simp
    note split = headers_below_Cons [OF fresh, of pre n]
    show "pending_files st' = pending_files st \<union> headers_below pre ((name, n) # rest)
          \<and> processed_files st' = processed_files st"
    proof (cases n)
      case (RegNode file_content)
      define st1 where "st1 = (if suffix ''.h'' path
          then st\<lparr>pending_files := insert path (pending_files st)\<rparr> else st)"
      from run RegNode have "collect_names st1 dir_path rest = Inr st'"
        by (auto simp: st1_def path_def Let_def split: if_splits)
      with "3.IH"(5) [OF path_def RegNode] dp v vrest
      have ih: "pending_files st' = pending_files st1 \<union> headers_below pre rest"
        "processed_files st' = processed_files st1"
        unfolding st1_def by blast+
      have sh: "suffix ''.h'' path = suffix ''.h'' name"
        unfolding path using v(1) vn by (rule suffix_h_path)
      have "pending_files st1 = pending_files st \<union> headers_via pre name (RegNode file_content)"
        using sh suffix_h_not_aprinter [OF _ v(2), of name]
        by (auto simp: st1_def headers_via_reg path)
      moreover have "processed_files st1 = processed_files st" by (simp add: st1_def)
      ultimately show ?thesis using ih split RegNode by auto
    next
      case OtherNode
      with run have "collect_names st dir_path rest = Inr st'" by (simp add: Let_def)
      with "3.IH"(6) [OF path_def OtherNode] dp v vrest
      have "pending_files st' = pending_files st \<union> headers_below pre rest"
        "processed_files st' = processed_files st" by blast+
      with split OtherNode show ?thesis by (simp add: headers_via_leaf)
    next
      case Unstatable
      with run show ?thesis by (simp add: Let_def)
    next
      case Unlistable
      with run obtain b where b: "collect_files st path n = Inr b"
        "collect_names b dir_path rest = Inr st'"
        by (auto simp: path_def Let_def split: sum.splits)
      from b(1) Unlistable have "b = st" by (auto split: if_splits)
      with "3.IH"(4) [OF path_def Unlistable b(1)] b(2) dp v vrest
      have "pending_files st' = pending_files st \<union> headers_below pre rest"
        "processed_files st' = processed_files st" by blast+
      with split Unlistable show ?thesis by (simp add: headers_via_leaf)
    next
      case (DirNode es)
      with run obtain b where b: "collect_files st path n = Inr b"
        "collect_names b dir_path rest = Inr st'"
        by (auto simp: path_def Let_def split: sum.splits)
      from "3.IH"(2) [OF path_def DirNode b(1)] b(2) dp v vrest
      have ih: "pending_files st' = pending_files b \<union> headers_below pre rest"
        "processed_files st' = processed_files b" by blast+
      have "pending_files b = pending_files st \<union> headers_via pre name n
            \<and> processed_files b = processed_files st"
      proof (cases "path = ''aprinter''")
        case True
        with b(1) have "b = st" by simp
        moreover from True path have "hd (pre @ [name]) = ''aprinter''"
          using path_aprinter_iff [OF v(1) vn v(2)] by simp
        ultimately show ?thesis by (simp add: DirNode headers_via_dir)
      next
        case False
        with path have hd: "hd (pre @ [name]) \<noteq> ''aprinter''"
          using path_aprinter_iff [OF v(1) vn v(2)] by simp
        then have "pre @ [name] = [] \<or> hd (pre @ [name]) \<noteq> ''aprinter''" by simp
        with "3.IH"(1) [OF path_def DirNode] b(1) path v' vsub
        obtain es' where "n = DirNode es'"
          "pending_files b = pending_files st \<union> headers_below (pre @ [name]) es'"
          "processed_files b = processed_files st" by blast
        with DirNode hd show ?thesis by (simp add: headers_via_dir)
      qed
      with ih split show ?thesis by auto
    qed
  qed
qed

lemma lookup_valid_names:
  "lookup root cs = Some n \<Longrightarrow> valid_tree root \<Longrightarrow> list_all valid_name cs"
proof (induction cs arbitrary: root)
  case Nil
  show ?case by simp
next
  case (Cons c cs)
  from Cons.prems(1) obtain es m where root: "root = DirNode es" and m: "map_of es c = Some m"
    and l: "lookup m cs = Some n"
    by (cases root) (auto split: option.splits)
  from m have "(c, m) \<in> set es" by (rule map_of_SomeD)
  with Cons.prems(2) root have "valid_name c" "valid_tree m" by auto
  with Cons.IH [OF l] show ?case by simp
qed

section \<open>Lemmas on the mirror\<close>































section \<open>Lemmas on errors\<close>







section \<open>The small file graph, evaluated\<close>

lemmas example_defs = example_env_def example_src_def example_aprinter_def
lemmas eval_defs = includes_of_def read_file_def base_dir_def file_is_from_aprinter_def os_sep_def
  finditer_def include_match_def lstrip_spaces_def rstrip_spaces_def newline_def

lemma example_includes:
  "includes_of example_env ''foo.h'' = {''aprinter/bar.h''}"
  "includes_of example_env ''aprinter/bar.h'' = {''aprinter/baz.h''}"
  "includes_of example_env ''aprinter/baz.h'' = {''aprinter/bar.h''}"
  by (simp_all add: example_defs eval_defs)

lemma example_readable:
  "readable example_env ''foo.h''"
  "readable example_env ''aprinter/bar.h''"
  "readable example_env ''aprinter/baz.h''"
  by (simp_all add: readable_def example_defs eval_defs)

lemma example_closure:
  "closure example_env {''foo.h''} = {''foo.h'', ''aprinter/bar.h'', ''aprinter/baz.h''}"
proof
  show "closure example_env {''foo.h''} \<subseteq> {''foo.h'', ''aprinter/bar.h'', ''aprinter/baz.h''}"
    by (rule closure_least) (auto simp: example_includes)
next
  have 0: "''foo.h'' \<in> closure example_env {''foo.h''}"
    using closure_seeds by blast
  from closure_step [OF 0] have 1: "''aprinter/bar.h'' \<in> closure example_env {''foo.h''}"
    by (simp add: example_includes)
  from closure_step [OF 1] have 2: "''aprinter/baz.h'' \<in> closure example_env {''foo.h''}"
    by (simp add: example_includes)
  from 0 1 2 show "{''foo.h'', ''aprinter/bar.h'', ''aprinter/baz.h''} \<subseteq> closure example_env {''foo.h''}"
    by simp
qed

lemma example_finite:
  "finite (ran (src_dir example_env))" "finite (ran (aprinter_dir example_env))"
  by (simp_all add: example_defs finite_ran)

lemma example_pass_1:
  "loop_body example_env (initial {''foo.h''}) ''foo.h''
   = Inr \<lparr>pending_files = {''aprinter/bar.h''}, processed_files = {''foo.h''}\<rparr>"
  by (simp add: loop_body_Inr initial_def example_defs eval_defs)

lemma example_pass_2:
  "loop_body example_env \<lparr>pending_files = {''aprinter/bar.h''}, processed_files = {''foo.h''}\<rparr>
     ''aprinter/bar.h''
   = Inr \<lparr>pending_files = {''aprinter/baz.h''}, processed_files = {''aprinter/bar.h'', ''foo.h''}\<rparr>"
  by (simp add: loop_body_Inr example_defs eval_defs)

lemma example_pass_3:
  "loop_body example_env
     \<lparr>pending_files = {''aprinter/baz.h''}, processed_files = {''aprinter/bar.h'', ''foo.h''}\<rparr>
     ''aprinter/baz.h''
   = Inr \<lparr>pending_files = {},
          processed_files = {''aprinter/baz.h'', ''aprinter/bar.h'', ''foo.h''}\<rparr>"
  by (simp add: loop_body_Inr example_defs eval_defs)

lemma example_run:
  "iterations example_env (initial {''foo.h''}) [''foo.h'', ''aprinter/bar.h'', ''aprinter/baz.h'']
     \<lparr>pending_files = {}, processed_files = {''aprinter/baz.h'', ''aprinter/bar.h'', ''foo.h''}\<rparr>"
  apply (rule pass [OF _ example_pass_1])
   apply (simp add: initial_def)
  apply (rule pass [OF _ example_pass_2])
   apply simp
  apply (rule pass [OF _ example_pass_3])
   apply simp
  apply (rule no_pass)
  done

lemma finditer_prefix: "q \<in> set (finditer c) \<Longrightarrow> prefix ''aprinter/'' q"
proof -
  assume "q \<in> set (finditer c)"
  then obtain line where "include_match line = Some q"
    by (auto simp: finditer_def List.map_filter_def)
  then show ?thesis
    by (auto simp: include_match_def Let_def split: list.splits if_splits)
qed




section \<open>The claims\<close>

subsection \<open>C1: the resolver computes the closure\<close>

text \<open>
  Claim C1. In a finite file graph in which every file that can be reached from a seed
  can be read, \<^const>\<open>process_pending_files\<close> started on the seeds with nothing processed
  has a run that returns, no run raises, and every run, whatever the order of its pops,
  returns with \<^verbatim>\<open>pending_files\<close> empty and \<^verbatim>\<open>processed_files\<close> equal to the closure of
  the seeds: the seeds and all paths reachable from them along recognized include
  directives, and no other path.
\<close>

theorem resolver_computes_closure:
  assumes "finite seeds" and "finite (ran (src_dir e))" and "finite (ran (aprinter_dir e))"
    and "\<forall>p\<in>closure e seeds. readable e p"
  shows "(\<exists>ps st. process_pending_files e (initial seeds) ps (Inr st)) \<and>
         (\<forall>ps r. process_pending_files e (initial seeds) ps r \<longrightarrow>
            (\<exists>st. r = Inr st \<and> pending_files st = {} \<and> processed_files st = closure e seeds))"
proof -
  have ok: "\<exists>st. r = Inr st \<and> pending_files st = {} \<and> processed_files st = closure e seeds"
    if run: "process_pending_files e (initial seeds) ps r" for ps r
  proof (cases r)
    case (Inl err)
    with run obtain qs p st' where it: "iterations e (initial seeds) qs st'"
      and p: "p \<in> pending_files st'" "loop_body e st' p = Inl err"
      by (auto simp: raised_iff)
    have "pending_files (initial seeds) \<union> processed_files (initial seeds) \<subseteq> closure e seeds"
      using closure_seeds by (simp add: initial_def)
    from iterations_within_closure [OF it this] p(1) have "p \<in> closure e seeds" by auto
    with assms(4) have "readable e p" by simp
    with p(2) show ?thesis by (auto simp: readable_def loop_body_Inl)
  next
    case (Inr st)
    with run have "iterations e (initial seeds) ps st" "pending_files st = {}"
      by (simp_all add: finished_iff)
    with Inr complete_run_closure show ?thesis by simp
  qed
  have fin: "finite (all_includes e)" using assms(2,3) by (rule all_includes_finite)
  have "\<exists>ps r. process_pending_files e (initial seeds) ps r"
    using fin by (rule run_exists) (simp_all add: initial_def disjoint_sets_def assms(1))
  then obtain ps r where run: "process_pending_files e (initial seeds) ps r" by blast
  from ok [OF run] obtain st where "r = Inr st" by blast
  with run have "\<exists>ps st. process_pending_files e (initial seeds) ps (Inr st)" by blast
  with ok show ?thesis by blast
qed

theorem resolver_computes_closure_witness:
  "\<exists>ps st. process_pending_files example_env (initial {''foo.h''}) ps (Inr st)
     \<and> pending_files st = {}
     \<and> processed_files st = {''foo.h'', ''aprinter/bar.h'', ''aprinter/baz.h''}"
proof -
  have "\<forall>p\<in>closure example_env {''foo.h''}. readable example_env p"
    by (simp add: example_closure example_readable)
  from resolver_computes_closure [OF _ example_finite this]
  show ?thesis by (simp add: example_closure) blast
qed

subsection \<open>C2: the resolution loop terminates\<close>

text \<open>
  Claim C2. In a finite file graph, cyclic or not, every sequence of passes that the
  loop of \<^const>\<open>process_pending_files\<close> can make pops pairwise distinct identifiers and is
  no longer than the number of identifiers that exist (the initial pending set and all
  captured include paths), so the loop cannot run forever; it reaches its end, and when
  it returns \<^verbatim>\<open>pending_files\<close> is empty.
\<close>

theorem resolution_terminates:
  assumes "finite (pending_files st0)" and "finite (ran (src_dir e))"
    and "finite (ran (aprinter_dir e))" and "disjoint_sets st0"
  shows "(\<forall>ps st. iterations e st0 ps st \<longrightarrow>
            distinct ps \<and> length ps \<le> card (pending_files st0 \<union> all_includes e))
       \<and> (\<exists>ps r. process_pending_files e st0 ps r)
       \<and> (\<forall>ps st. process_pending_files e st0 ps (Inr st) \<longrightarrow> pending_files st = {})"
proof -
  have fin: "finite (all_includes e)" using assms(2,3) by (rule all_includes_finite)
  have 1: "distinct ps \<and> length ps \<le> card (pending_files st0 \<union> all_includes e)"
    if "iterations e st0 ps st" for ps st
    using iterations_disjoint [OF that assms(4)] iterations_bounded [OF that assms(4,1) fin]
    by simp
  have 2: "\<exists>ps r. process_pending_files e st0 ps r"
    using fin assms(1,4) by (rule run_exists)
  have 3: "pending_files st = {}" if "process_pending_files e st0 ps (Inr st)" for ps st
    using that by (simp add: finished_iff)
  from 1 2 3 show ?thesis by blast
qed

theorem resolution_terminates_witness:
  "distinct [''foo.h'', ''aprinter/bar.h'', ''aprinter/baz.h'']
   \<and> length [''foo.h'', ''aprinter/bar.h'', ''aprinter/baz.h'']
       \<le> card (pending_files (initial {''foo.h''}) \<union> all_includes example_env)
   \<and> (\<exists>ps r. process_pending_files example_env (initial {''foo.h''}) ps r)"
proof -
  have "finite (pending_files (initial {''foo.h''}))" "disjoint_sets (initial {''foo.h''})"
    by (simp_all add: initial_def disjoint_sets_def)
  from resolution_terminates [OF this(1) example_finite this(2)] example_run
  show ?thesis by blast
qed

subsection \<open>C3: pending and processed stay disjoint\<close>

text \<open>
  Claim C3. From a state whose two sets are disjoint, after any number of passes the
  sets are disjoint; during the next pass they are disjoint after the pop, after the
  insertion into \<^verbatim>\<open>processed_files\<close> and after the insertion of each discovered
  identifier. No identifier is popped twice, every popped identifier is in
  \<^verbatim>\<open>processed_files\<close> and is not pending again, and whatever was pending at an earlier
  point of the run is later still pending or has been popped since.
\<close>

theorem pending_processed_disjoint:
  assumes "iterations e st0 ps st" and "disjoint_sets st0"
  shows "disjoint_sets st
       \<and> distinct ps
       \<and> processed_files st = processed_files st0 \<union> set ps
       \<and> set ps \<inter> pending_files st = {}
       \<and> (\<forall>p\<in>pending_files st.
            disjoint_sets (pop_pending st p)
            \<and> disjoint_sets (add_processed (pop_pending st p) p)
            \<and> (\<forall>incs. disjoint_sets (foldl add_include (add_processed (pop_pending st p) p) incs)))
       \<and> (\<forall>ps1 ps2 st1. ps = ps1 @ ps2 \<and> iterations e st0 ps1 st1
            \<longrightarrow> pending_files st1 \<subseteq> pending_files st \<union> set ps2)"
proof -
  note d = iterations_disjoint [OF assms]
  note proc = iterations_processed [OF assms(1)]
  have a: "disjoint_sets st" and b: "distinct ps" using d by simp_all
  have c: "set ps \<inter> pending_files st = {}"
    using a proc by (auto simp: disjoint_sets_def)
  have micro: "disjoint_sets (pop_pending st p)
            \<and> disjoint_sets (add_processed (pop_pending st p) p)
            \<and> (\<forall>incs. disjoint_sets (foldl add_include (add_processed (pop_pending st p) p) incs))"
    if "p \<in> pending_files st" for p
    using a by (auto simp: disjoint_sets_def pop_pending_def add_processed_def foldl_add_include)
  have later: "pending_files st1 \<subseteq> pending_files st \<union> set ps2"
    if "ps = ps1 @ ps2 \<and> iterations e st0 ps1 st1" for ps1 ps2 st1
  proof -
    from that assms(1) obtain st1' where s: "iterations e st0 ps1 st1'" "iterations e st1' ps2 st"
      using iterations_split by blast
    from that s(1) have "st1' = st1" using iterations_deterministic by blast
    with s(2) have run2: "iterations e st1 ps2 st" by simp
    from that assms(2) have "disjoint_sets st1" using iterations_disjoint by blast
    with iterations_known [OF run2] iterations_processed [OF run2]
    show ?thesis by (auto simp: disjoint_sets_def)
  qed
  from a b c proc micro later show ?thesis by blast
qed

theorem pending_processed_disjoint_witness:
  "disjoint_sets \<lparr>pending_files = {}, processed_files = {''aprinter/baz.h'', ''aprinter/bar.h'', ''foo.h''}\<rparr>
   \<and> distinct [''foo.h'', ''aprinter/bar.h'', ''aprinter/baz.h'']
   \<and> processed_files \<lparr>pending_files = {}, processed_files = {''aprinter/baz.h'', ''aprinter/bar.h'', ''foo.h''}\<rparr>
       = processed_files (initial {''foo.h''}) \<union> set [''foo.h'', ''aprinter/bar.h'', ''aprinter/baz.h'']
   \<and> iterations example_env (initial {''foo.h''}) [''foo.h'', ''aprinter/bar.h'', ''aprinter/baz.h'']
     \<lparr>pending_files = {}, processed_files = {''aprinter/baz.h'', ''aprinter/bar.h'', ''foo.h''}\<rparr>"
proof -
  have "disjoint_sets (initial {''foo.h''})" by (simp add: initial_def disjoint_sets_def)
  from pending_processed_disjoint [OF example_run this] example_run
  show ?thesis by blast
qed

subsection \<open>C4: the origin of a path\<close>

text \<open>
  Claim C4, as amended. \<^const>\<open>file_is_from_aprinter\<close> holds of a path exactly when its first
  segment is \<^verbatim>\<open>aprinter\<close> and a separator follows it, that is, when the path is not the
  bare name \<^verbatim>\<open>aprinter\<close>; every other path is taken from the project tree. The
  classification is a function of the path string alone.
\<close>

theorem origin_classification:
  "file_is_from_aprinter p \<longleftrightarrow> (spec_library_origin p \<and> p \<noteq> ''aprinter'')"
  using prefix_aprinter_iff_first_segment [of p]
  by (simp add: file_is_from_aprinter_def os_sep_def spec_library_origin_def)

theorem origin_classification_witness:
  "file_is_from_aprinter ''aprinter/base/Foo.h'' \<and> spec_library_origin ''aprinter/base/Foo.h''
   \<and> \<not> file_is_from_aprinter ''aipstack/aprinter/Foo.h''"
  using origin_classification [of "''aprinter/base/Foo.h''"]
    origin_classification [of "''aipstack/aprinter/Foo.h''"]
  by (simp add: spec_library_origin_def first_segment_def)

text \<open>
  The claim as stated fails for the namespace name alone: its first segment is
  \<^verbatim>\<open>aprinter\<close>, and the program takes it for a project path.
\<close>

theorem namespace_name_alone_counterexample:
  "spec_library_origin ''aprinter'' \<and> \<not> file_is_from_aprinter ''aprinter''"
  by (simp add: spec_library_origin_def first_segment_def file_is_from_aprinter_def os_sep_def)

subsection \<open>C5: the lines recognized as include directives\<close>

text \<open>
  Claim C5, as amended. A line of a scanned file is recognized, with the path \<open>grp\<close>
  captured, exactly when it consists of zero or more spaces, \<^verbatim>\<open>#\<close>, zero or more
  spaces, \<^verbatim>\<open>include\<close>, zero or more spaces, \<^verbatim>\<open><\<close>, the path, \<^verbatim>\<open>>\<close>, zero or more
  spaces, and the path is \<^verbatim>\<open>aprinter/\<close> followed by at least one character. Only the
  space character counts as whitespace, and none is required before \<^verbatim>\<open><\<close>. The
  paths found in a file are those captured on its lines.
\<close>

theorem include_directive_recognized:
  "(\<forall>line\<in>set (split_lines file_content). \<forall>grp.
      (include_match line = Some grp) = regex_form line grp)
   \<and> set (finditer file_content)
       = {grp. \<exists>line\<in>set (split_lines file_content). regex_form line grp}"
proof -
  have 1: "(include_match line = Some grp) = regex_form line grp"
    if "line \<in> set (split_lines file_content)" for line grp
    using split_lines_no_newline [OF that] match_imp_regex_form regex_form_imp_match by blast
  have "set (finditer file_content)
        = {grp. \<exists>line\<in>set (split_lines file_content). include_match line = Some grp}"
    by (simp add: finditer_def set_map_filter)
  with 1 show ?thesis by auto
qed

theorem include_directive_recognized_witness:
  "regex_form ''  #  include <aprinter/bar.h>  '' ''aprinter/bar.h''
   \<and> \<not> (\<exists>grp. regex_form ''#include <vector>'' grp)
   \<and> \<not> (\<exists>grp. regex_form ''#include <aipstack/aprinter/bar.h>'' grp)"
proof -
  have 1: "include_match ''  #  include <aprinter/bar.h>  '' = Some ''aprinter/bar.h''"
    and 2: "include_match ''#include <vector>'' = None"
    and 3: "include_match ''#include <aipstack/aprinter/bar.h>'' = None"
    by (simp_all add: include_match_def lstrip_spaces_def rstrip_spaces_def)
  have a: "regex_form ''  #  include <aprinter/bar.h>  '' ''aprinter/bar.h''"
    using include_directive_recognized [of "''  #  include <aprinter/bar.h>  ''"] 1
    by (simp add: newline_def) blast
  have b: "\<not> (\<exists>grp. regex_form ''#include <vector>'' grp)"
    using include_directive_recognized [of "''#include <vector>''"] 2
    by (simp add: newline_def)
  have c: "\<not> (\<exists>grp. regex_form ''#include <aipstack/aprinter/bar.h>'' grp)"
    using include_directive_recognized [of "''#include <aipstack/aprinter/bar.h>''"] 3
    by (simp add: newline_def)
  from a b c show ?thesis by blast
qed

text \<open>
  The claim as stated fails in both directions: the program recognizes a directive with
  no whitespace between \<^verbatim>\<open>include\<close> and \<^verbatim>\<open><\<close>, which is not of the stated form, and
  it does not recognize a directive indented with a tab, which is.
\<close>

theorem include_directive_counterexample:
  "include_match ''#include<aprinter/a.h>'' = Some ''aprinter/a.h''
   \<and> \<not> spec_include_form ''#include<aprinter/a.h>''
   \<and> include_match (CHR 0x09 # ''#include <aprinter/a.h>'') = None
   \<and> spec_include_form (CHR 0x09 # ''#include <aprinter/a.h>'')"
  by (simp add: include_match_def lstrip_spaces_def rstrip_spaces_def spec_include_form_def
      is_blank_def)

subsection \<open>C6: the mirror leaves the rest of the project tree alone\<close>



subsection \<open>C7: running the mirror again changes nothing\<close>



subsection \<open>C8: errors end the run\<close>




subsection \<open>C9: seeding\<close>

text \<open>
  Claim C9. On a directory tree as a file system has it, a walk by \<^const>\<open>collect_files\<close>
  from the project source root that returns has added to \<^verbatim>\<open>pending_files\<close> exactly the
  relative paths of the regular files whose name ends in \<^verbatim>\<open>.h\<close> and that do not lie
  below the top-level directory \<^verbatim>\<open>aprinter\<close>, and has left \<^verbatim>\<open>processed_files\<close> alone.
  No seed is classified as a library path; entries that are not regular files and files
  with another suffix are not seeds.
\<close>

theorem seeding_collects_headers:
  assumes "valid_tree root" and "collect_files st [] root = Inr st'"
  shows "pending_files st' = pending_files st \<union> header_paths root
       \<and> processed_files st' = processed_files st
       \<and> (\<forall>p\<in>header_paths root. \<not> file_is_from_aprinter p)"
proof -
  have "[] = rel_path []" "list_all valid_name []" "[] = [] \<or> hd [] \<noteq> ''aprinter''"
    by (simp_all add: rel_path_def)
  with collect_walk(1) [of st "[]" root] assms
  obtain es where es: "root = DirNode es"
    "pending_files st' = pending_files st \<union> headers_below [] es"
    "processed_files st' = processed_files st"
    by blast
  have same: "headers_below [] es = header_paths root"
    by (simp add: headers_below_def header_paths_def es(1))
  have "\<not> file_is_from_aprinter p" if "p \<in> header_paths root" for p
  proof -
    from that obtain cs where cs: "p = rel_path cs" "reg_at root cs" "hd cs \<noteq> ''aprinter''"
      by (auto simp: header_paths_def)
    from cs(2) assms(1) have "list_all valid_name cs"
      by (auto simp: reg_at_def dest: lookup_valid_names)
    with cs(1,3) show ?thesis by (simp add: rel_path_not_aprinter(2))
  qed
  with es same show ?thesis by simp
qed

theorem seeding_collects_headers_witness:
  "collect_files (initial {}) [] example_tree
     = Inr \<lparr>pending_files = {''foo.h'', ''ip/IpStack.h'', ''ip/aprinter/inner.h''},
            processed_files = {}\<rparr>
   \<and> header_paths example_tree = {''foo.h'', ''ip/IpStack.h'', ''ip/aprinter/inner.h''}"
proof -
  have v: "valid_tree example_tree"
    by (simp add: example_tree_def valid_name_def)
  have run: "collect_files (initial {}) [] example_tree
     = Inr \<lparr>pending_files = {''foo.h'', ''ip/IpStack.h'', ''ip/aprinter/inner.h''},
            processed_files = {}\<rparr>"
    by (auto simp: example_tree_def initial_def Let_def path_join_def suffix_to_prefix)
  from seeding_collects_headers [OF v run] run show ?thesis by (simp add: initial_def)
qed

subsection \<open>C10: expansion discovers library paths only\<close>

text \<open>
  Claim C10. Every path that the pattern captures begins with \<^verbatim>\<open>aprinter/\<close> and is
  classified as a library path by \<^const>\<open>file_is_from_aprinter\<close>. Hence, after any number of
  passes from the seeds, every pending or processed path is a seed or such a library
  path, and every processed path that is classified as a project path is a seed.
\<close>

theorem expansion_adds_library_paths_only:
  assumes "iterations e (initial seeds) ps st"
  shows "(\<forall>q\<in>pending_files st \<union> processed_files st.
            q \<in> seeds \<or> (prefix ''aprinter/'' q \<and> file_is_from_aprinter q))
       \<and> {q \<in> processed_files st. \<not> file_is_from_aprinter q} \<subseteq> seeds
       \<and> (\<forall>file_content. \<forall>q\<in>set (finditer file_content). file_is_from_aprinter q)"
proof -
  have known: "pending_files st \<union> processed_files st = seeds \<union> (\<Union>p\<in>set ps. includes_of e p)"
    using iterations_known [OF assms] by (simp add: initial_def)
  have lib: "prefix ''aprinter/'' q \<and> file_is_from_aprinter q" if "q \<in> includes_of e p" for p q
    using includes_of_prefix [OF that] by (simp add: file_is_from_aprinter_def os_sep_def)
  have 1: "q \<in> seeds \<or> (prefix ''aprinter/'' q \<and> file_is_from_aprinter q)"
    if "q \<in> pending_files st \<union> processed_files st" for q
    using that known lib by blast
  then have 2: "{q \<in> processed_files st. \<not> file_is_from_aprinter q} \<subseteq> seeds" by blast
  have 3: "file_is_from_aprinter q" if "q \<in> set (finditer c)" for c q
    using finditer_prefix [OF that] by (simp add: file_is_from_aprinter_def os_sep_def)
  from 1 2 3 show ?thesis by blast
qed

theorem expansion_adds_library_paths_only_witness:
  "iterations example_env (initial {''foo.h''}) [''foo.h'', ''aprinter/bar.h'', ''aprinter/baz.h'']
     \<lparr>pending_files = {}, processed_files = {''aprinter/baz.h'', ''aprinter/bar.h'', ''foo.h''}\<rparr>
   \<and> {q \<in> {''aprinter/baz.h'', ''aprinter/bar.h'', ''foo.h''}. \<not> file_is_from_aprinter q} \<subseteq> {''foo.h''}
   \<and> file_is_from_aprinter ''aprinter/bar.h'' \<and> \<not> file_is_from_aprinter ''foo.h''"
proof -
  have "\<not> file_is_from_aprinter ''foo.h''" "file_is_from_aprinter ''aprinter/bar.h''"
    by (simp_all add: file_is_from_aprinter_def os_sep_def)
  with expansion_adds_library_paths_only [OF example_run] example_run
  show ?thesis by simp
qed

end
